theory Spec2Isabelle
  imports Main
begin

section \<open>Python string primitives used by CKPE\_Config.py\<close>

text \<open>
  A Python \<open>str\<close> is modelled as a \<open>string\<close>, one \<open>char\<close> per code point, for the code
  points below 256.  \<open>isspace\<close> is Python's \<open>str.isspace\<close> on one such character: the
  set that \<open>str.strip()\<close> and \<open>str.lstrip()\<close> remove.
\<close>

abbreviation NL :: char where
  "NL \<equiv> CHR 0x0A"

abbreviation TAB :: char where
  "TAB \<equiv> CHR 0x09"

definition isspace :: "char \<Rightarrow> bool" where
  "isspace c =
     (let n = (of_char c :: nat)
      in (9 \<le> n \<and> n \<le> 13) \<or> (28 \<le> n \<and> n \<le> 32) \<or> n = 133 \<or> n = 160)"

definition lstrip :: "string \<Rightarrow> string" where
  "lstrip s = dropWhile isspace s"

definition rstrip :: "string \<Rightarrow> string" where
  "rstrip s = rev (dropWhile isspace (rev s))"

definition strip :: "string \<Rightarrow> string" where
  "strip s = rstrip (lstrip s)"

text \<open>\<open>s.startswith(c)\<close> and \<open>s.endswith(c)\<close> for a one-character \<open>c\<close>.\<close>

fun startswith :: "string \<Rightarrow> char \<Rightarrow> bool" where
  "startswith [] c = False"
| "startswith (x # xs) c = (x = c)"

definition endswith :: "string \<Rightarrow> char \<Rightarrow> bool" where
  "endswith s c = (s \<noteq> [] \<and> last s = c)"

text \<open>
  \<open>s.split(c, 1)\<close> where \<open>c\<close> occurs in \<open>s\<close> (both call sites are guarded by
  \<open>c in s\<close>): the text before the first \<open>c\<close> and the text after it.
\<close>

definition split_once :: "string \<Rightarrow> char \<Rightarrow> string \<times> string" where
  "split_once s c = (takeWhile (\<lambda>x. x \<noteq> c) s, tl (dropWhile (\<lambda>x. x \<noteq> c) s))"

text \<open>\<open>'\n'.join(xs)\<close>.\<close>

fun join_lines :: "string list \<Rightarrow> string" where
  "join_lines [] = []"
| "join_lines [x] = x"
| "join_lines (x # y # ys) = x @ [NL] @ join_lines (y # ys)"

section \<open>The document model\<close>

text \<open>
  The exceptions the modelled statements can raise, and \<open>DocumentMismatch\<close>, the error the
  specification names for the writer; no statement of the source raises it.
\<close>

datatype error = IndexError | KeyError | ValueError | OverflowError | DocumentMismatch

text \<open>
  \<open>line_number\<close> is set by the parser only, from the index \<open>i\<close> of \<open>enumerate(lines)\<close>:
  a natural number.
\<close>

record ConfigEntry =
  entry_name :: string
  entry_value :: string
  entry_tooltip :: string
  entry_line_number :: nat
  inline_comment :: string

record ConfigSection =
  section_name :: string
  section_tooltip :: string
  section_line_number :: nat
  entries :: "ConfigEntry list"

section \<open>The parser\<close>

text \<open>
  \<open>parse_comments\<close>: the loop walks \<open>idx\<close> from \<open>start_idx - 1\<close> down to \<open>0\<close>; the
  argument \<open>n\<close> of \<open>parse_comments_loop\<close> is \<open>idx + 1\<close>, so \<open>n = 0\<close> is the exit
  \<open>idx < 0\<close>.  \<open>comments.insert(0, x)\<close> puts \<open>x\<close> in front.  The first read
  \<open>lines[start_idx - 1]\<close> raises IndexError when \<open>start_idx\<close> is beyond the list.
\<close>

fun parse_comments_loop :: "string list \<Rightarrow> nat \<Rightarrow> string list \<Rightarrow> string list" where
  "parse_comments_loop lines 0 comments = comments"
| "parse_comments_loop lines (Suc idx) comments =
     (let s = strip (lines ! idx)
      in if startswith s (CHR '';'') \<or> s = []
         then parse_comments_loop lines idx
                (if startswith s (CHR '';'') then strip (tl s) # comments else comments)
         else comments)"

definition parse_comments :: "string list \<Rightarrow> nat \<Rightarrow> error + string" where
  "parse_comments lines start_idx =
     (if length lines < start_idx then Inl IndexError
      else Inr (join_lines (parse_comments_loop lines start_idx [])))"

text \<open>
  The body of the \<open>for i, line in enumerate(lines)\<close> loop.  \<open>current_section\<close> is the
  object appended to \<open>sections\<close> last (it is assigned only where it is appended), so it
  is \<open>None\<close> exactly when \<open>sections\<close> is empty, and \<open>current_section.entries.append\<close>
  changes the last element of \<open>sections\<close>.
\<close>

definition append_entry :: "ConfigSection list \<Rightarrow> ConfigEntry \<Rightarrow> ConfigSection list" where
  "append_entry sections entry =
     butlast sections @ [(last sections)\<lparr>entries := entries (last sections) @ [entry]\<rparr>]"

definition parse_line ::
  "string list \<Rightarrow> nat \<Rightarrow> string \<Rightarrow> ConfigSection list \<Rightarrow> error + ConfigSection list" where
  "parse_line lines i raw sections =
     (let line = strip raw
      in if line = [] \<or> startswith line (CHR '';'') then Inr sections
         else if startswith line (CHR ''['') \<and> endswith line (CHR '']'') then
           (case parse_comments lines i of
              Inl e \<Rightarrow> Inl e
            | Inr tooltip \<Rightarrow>
                Inr (sections @
                  [\<lparr>section_name = butlast (tl line), section_tooltip = tooltip,
                    section_line_number = i, entries = []\<rparr>]))
         else if CHR ''='' \<in> set line \<and> sections \<noteq> [] then
           (case split_once line (CHR ''='') of
              (name0, value0) \<Rightarrow>
                (let name = strip name0; val = strip value0
                 in case parse_comments lines i of
                      Inl e \<Rightarrow> Inl e
                    | Inr tooltip \<Rightarrow>
                        if CHR '';'' \<in> set val then
                          (case split_once val (CHR '';'') of
                             (val1, comment1) \<Rightarrow>
                               Inr (append_entry sections
                                 \<lparr>entry_name = name, entry_value = strip val1,
                                  entry_tooltip =
                                    (if tooltip \<noteq> [] then tooltip @ [NL] @ strip comment1
                                     else strip comment1),
                                  entry_line_number = i,
                                  inline_comment = strip comment1\<rparr>))
                        else
                          Inr (append_entry sections
                            \<lparr>entry_name = name, entry_value = val, entry_tooltip = tooltip,
                             entry_line_number = i, inline_comment = []\<rparr>)))
         else Inr sections)"

fun parse_loop ::
  "string list \<Rightarrow> nat \<Rightarrow> string list \<Rightarrow> ConfigSection list \<Rightarrow> error + ConfigSection list" where
  "parse_loop lines i [] sections = Inr sections"
| "parse_loop lines i (raw # rest) sections =
     (case parse_line lines i raw sections of
        Inl e \<Rightarrow> Inl e
      | Inr sections' \<Rightarrow> parse_loop lines (Suc i) rest sections')"

text \<open>
  \<open>parse_ini_with_comments\<close>, from the list \<open>f.readlines()\<close> returned: the sections and
  the lines themselves.
\<close>

definition parse_ini_with_comments ::
  "string list \<Rightarrow> error + (ConfigSection list \<times> string list)" where
  "parse_ini_with_comments lines =
     (case parse_loop lines 0 lines [] of
        Inl e \<Rightarrow> Inl e
      | Inr sections \<Rightarrow> Inr (sections, lines))"

text \<open>
  \<open>f.readlines()\<close> on the text as Python hands it over (decoded, every line ending
  already translated to \<open>\n\<close>): every line keeps its terminating newline, and the last
  line has none when the text does not end with one.  \<open>f.writelines\<close> writes the lines
  one after the other.
\<close>

fun readlines :: "string \<Rightarrow> string list" where
  "readlines [] = []"
| "readlines (c # cs) =
     (if c = NL then [c] # readlines cs
      else (case readlines cs of [] \<Rightarrow> [[c]] | l # ls \<Rightarrow> (c # l) # ls))"

definition writelines :: "string list \<Rightarrow> string" where
  "writelines new_lines = concat new_lines"

section \<open>The editor: widgets, load and save\<close>

text \<open>
  A widget is modelled by its kind and by the one piece of state that \<open>save_ini\<close> reads
  from it: \<open>isChecked()\<close>, \<open>value()\<close>, \<open>currentData()\<close> (\<open>None\<close> when no item is
  current) and \<open>text()\<close>.
\<close>

datatype widget = QCheckBox bool | QSpinBox int | QComboBox "int option" | QLineEdit string

text \<open>\<open>str(n)\<close> for an integer.\<close>

definition digit_char :: "nat \<Rightarrow> char" where
  "digit_char d = ''0123456789'' ! d"

function str_nat :: "nat \<Rightarrow> string" where
  "str_nat n = (if n < 10 then [digit_char n] else str_nat (n div 10) @ [digit_char (n mod 10)])"
  by pat_completeness auto
termination
  by (relation "measure id") auto

declare str_nat.simps [simp del]

definition str_int :: "int \<Rightarrow> string" where
  "str_int k = (if k < 0 then CHR ''-'' # str_nat (nat (- k)) else str_nat (nat k))"

text \<open>\<open>s.lower()\<close>, \<open>s.isdigit()\<close> and \<open>int(s)\<close> on code points below 256.\<close>

definition py_lower :: "char \<Rightarrow> char" where
  "py_lower c =
     (let n = (of_char c :: nat)
      in if (65 \<le> n \<and> n \<le> 90) \<or> (192 \<le> n \<and> n \<le> 222 \<and> n \<noteq> 215)
         then char_of (n + 32) else c)"

definition lower :: "string \<Rightarrow> string" where
  "lower s = map py_lower s"

definition is_decimal :: "char \<Rightarrow> bool" where
  "is_decimal c = (48 \<le> (of_char c :: nat) \<and> (of_char c :: nat) \<le> 57)"

definition isdigit :: "string \<Rightarrow> bool" where
  "isdigit s =
     (s \<noteq> [] \<and>
      list_all (\<lambda>c. is_decimal c \<or> (of_char c :: nat) = 178 \<or> (of_char c :: nat) = 179
                     \<or> (of_char c :: nat) = 185) s)"

fun int_digits_ok :: "string \<Rightarrow> bool" where
  "int_digits_ok [] = False"
| "int_digits_ok [c] = is_decimal c"
| "int_digits_ok (c # d # cs) =
     (is_decimal c \<and> (if d = CHR ''_'' then int_digits_ok cs else int_digits_ok (d # cs)))"

definition py_int :: "string \<Rightarrow> error + int" where
  "py_int s =
     (let t = strip s;
          body = (if startswith t (CHR ''-'') \<or> startswith t (CHR ''+'') then tl t else t);
          magnitude =
            foldl (\<lambda>a c. if c = CHR ''_'' then a else 10 * a + ((of_char c :: nat) - 48)) 0 body
      in if int_digits_ok body
         then Inr (if startswith t (CHR ''-'') then - int magnitude else int magnitude)
         else Inl ValueError)"

definition charsets :: "int list" where
  "charsets = [0, 1, 2, 128, 129, 134, 136, 255, 130, 177, 178, 161, 162, 163, 222, 238, 204,
     77, 186]"

definition themes :: "int list" where
  "themes = [0, 1, 2]"

text \<open>
  \<open>create_widget_for_value\<close>.  \<open>findData\<close> gives \<open>-1\<close> for a value that no item
  carries, and \<open>setCurrentIndex(-1)\<close> leaves the combo box without a current item.
  A spin box keeps its value inside its range, here \<open>0\<close> to \<open>999999\<close>; \<open>setValue\<close> takes
  a C \<open>int\<close>, and a Python integer beyond its range raises OverflowError.
\<close>

definition create_widget_for_value :: "string \<Rightarrow> string \<Rightarrow> string \<Rightarrow> error + widget" where
  "create_widget_for_value val ename sname =
     (if sname = ''Hotkeys'' \<or> ename = ''uTintMaskResolution'' \<or> sname = ''Log''
      then Inr (QLineEdit val)
      else if ename = ''nCharset'' then
        (case py_int val of
           Inl e \<Rightarrow> Inl e
         | Inr n \<Rightarrow> Inr (QComboBox (if n \<in> set charsets then Some n else None)))
      else if ename = ''uUIDarkThemeId'' then
        (case py_int val of
           Inl e \<Rightarrow> Inl e
         | Inr n \<Rightarrow> Inr (QComboBox (if n \<in> set themes then Some n else None)))
      else if lower val = ''true'' \<or> lower val = ''false'' then
        Inr (QCheckBox (lower val = ''true''))
      else if isdigit val then
        (case py_int val of
           Inl e \<Rightarrow> Inl e
         | Inr n \<Rightarrow>
             if 2147483647 < n then Inl OverflowError
             else Inr (QSpinBox (min (max n 0) 999999)))
      else Inr (QLineEdit val))"

text \<open>
  \<open>create_section_widget\<close> and \<open>refresh_ui\<close>, as far as they fill \<open>self.widgets\<close>: a
  dictionary keyed by (section name, entry name), cleared first.
\<close>

fun create_section_widget ::
  "(string \<times> string \<Rightarrow> widget option) \<Rightarrow> string \<Rightarrow> ConfigEntry list
     \<Rightarrow> error + (string \<times> string \<Rightarrow> widget option)" where
  "create_section_widget ws sname [] = Inr ws"
| "create_section_widget ws sname (entry # rest) =
     (case create_widget_for_value (entry_value entry) (entry_name entry) sname of
        Inl e \<Rightarrow> Inl e
      | Inr w \<Rightarrow> create_section_widget (ws((sname, entry_name entry) \<mapsto> w)) sname rest)"

fun refresh_ui_loop ::
  "(string \<times> string \<Rightarrow> widget option) \<Rightarrow> ConfigSection list
     \<Rightarrow> error + (string \<times> string \<Rightarrow> widget option)" where
  "refresh_ui_loop ws [] = Inr ws"
| "refresh_ui_loop ws (s # rest) =
     (case create_section_widget ws (section_name s) (entries s) of
        Inl e \<Rightarrow> Inl e
      | Inr ws' \<Rightarrow> refresh_ui_loop ws' rest)"

definition refresh_ui :: "ConfigSection list \<Rightarrow> error + (string \<times> string \<Rightarrow> widget option)" where
  "refresh_ui secs = refresh_ui_loop Map.empty secs"

record ConfigEditor =
  sections :: "ConfigSection list"
  widgets :: "string \<times> string \<Rightarrow> widget option"
  original_lines :: "string list"

text \<open>\<open>load_ini\<close>, from the lines of the chosen file (the dialogs are left out).\<close>

definition load_ini :: "string list \<Rightarrow> error + ConfigEditor" where
  "load_ini lines =
     (case parse_ini_with_comments lines of
        Inl e \<Rightarrow> Inl e
      | Inr (secs, raw) \<Rightarrow>
          (case refresh_ui secs of
             Inl e \<Rightarrow> Inl e
           | Inr ws \<Rightarrow> Inr \<lparr>sections = secs, widgets = ws, original_lines = raw\<rparr>))"

text \<open>
  \<open>save_ini\<close>, lines 305 to 326: the value each widget holds, the new line, and the
  replacement in the copy of the original lines.  The dictionary lookup raises KeyError
  and the read \<open>new_lines[entry.line_number]\<close> raises IndexError.
\<close>

definition widget_value :: "widget \<Rightarrow> string" where
  "widget_value w =
     (case w of
        QCheckBox b \<Rightarrow> (if b then ''true'' else ''false'')
      | QSpinBox n \<Rightarrow> str_int n
      | QComboBox d \<Rightarrow> (case d of None \<Rightarrow> ''None'' | Some n \<Rightarrow> str_int n)
      | QLineEdit t \<Rightarrow> t)"

definition leading_space :: "string \<Rightarrow> nat" where
  "leading_space s = length s - length (lstrip s)"

definition new_line_of :: "ConfigEntry \<Rightarrow> string \<Rightarrow> string" where
  "new_line_of entry v =
     (if inline_comment entry \<noteq> []
      then entry_name entry @ ''='' @ v @ [TAB, TAB, TAB] @ ''; '' @ inline_comment entry
      else entry_name entry @ ''='' @ v)"

definition save_entry ::
  "(string \<times> string \<Rightarrow> widget option) \<Rightarrow> string \<Rightarrow> ConfigEntry \<Rightarrow> string list
     \<Rightarrow> error + string list" where
  "save_entry ws sname entry new_lines =
     (case ws (sname, entry_name entry) of
        None \<Rightarrow> Inl KeyError
      | Some w \<Rightarrow>
          (let new_line = new_line_of entry (widget_value w);
               n = entry_line_number entry
           in if n < length new_lines
              then Inr (new_lines[n := replicate (leading_space (new_lines ! n)) (CHR '' '')
                                        @ new_line @ [NL]])
              else Inl IndexError))"

fun save_entries ::
  "(string \<times> string \<Rightarrow> widget option) \<Rightarrow> string \<Rightarrow> ConfigEntry list \<Rightarrow> string list
     \<Rightarrow> error + string list" where
  "save_entries ws sname [] new_lines = Inr new_lines"
| "save_entries ws sname (entry # rest) new_lines =
     (case save_entry ws sname entry new_lines of
        Inl e \<Rightarrow> Inl e
      | Inr new_lines' \<Rightarrow> save_entries ws sname rest new_lines')"

fun save_sections ::
  "(string \<times> string \<Rightarrow> widget option) \<Rightarrow> ConfigSection list \<Rightarrow> string list
     \<Rightarrow> error + string list" where
  "save_sections ws [] new_lines = Inr new_lines"
| "save_sections ws (s # rest) new_lines =
     (case save_entries ws (section_name s) (entries s) new_lines of
        Inl e \<Rightarrow> Inl e
      | Inr new_lines' \<Rightarrow> save_sections ws rest new_lines')"

definition save_ini :: "ConfigEditor \<Rightarrow> error + string list" where
  "save_ini editor = save_sections (widgets editor) (sections editor) (original_lines editor)"

section \<open>Notions used to state the properties\<close>

text \<open>
  The recorded line numbers of a document in traversal order: each section's own line
  number, followed by the line numbers of its entries.
\<close>

definition source_lines :: "ConfigSection list \<Rightarrow> nat list" where
  "source_lines doc =
     concat (map (\<lambda>s. section_line_number s # map entry_line_number (entries s)) doc)"

text \<open>A small configuration file and the document the parser builds from it.\<close>

definition sample_lines :: "string list" where
  "sample_lines = [''; general settings\<newline>'', ''[General]\<newline>'', ''bFoo = true ; on\<newline>'',
     ''\<newline>'', ''uBar=12\<newline>'', ''[Log]\<newline>'', ''sFile = a.log'']"

definition sample_doc :: "ConfigSection list" where
  "sample_doc =
     [\<lparr>section_name = ''General'', section_tooltip = ''general settings'', section_line_number = 1,
       entries =
         [\<lparr>entry_name = ''bFoo'', entry_value = ''true'', entry_tooltip = ''on'',
           entry_line_number = 2, inline_comment = ''on''\<rparr>,
          \<lparr>entry_name = ''uBar'', entry_value = ''12'', entry_tooltip = [],
           entry_line_number = 4, inline_comment = []\<rparr>]\<rparr>,
      \<lparr>section_name = ''Log'', section_tooltip = [], section_line_number = 5,
       entries =
         [\<lparr>entry_name = ''sFile'', entry_value = ''a.log'', entry_tooltip = [],
           entry_line_number = 6, inline_comment = []\<rparr>]\<rparr>]"

text \<open>The classes of lines the parser tells apart, and the block of comment and blank
  lines right above line \<open>n\<close>.\<close>

definition is_comment_line :: "string \<Rightarrow> bool" where
  "is_comment_line l = startswith (strip l) (CHR '';'')"

definition is_blank_line :: "string \<Rightarrow> bool" where
  "is_blank_line l = (strip l = [])"

definition is_header_line :: "string \<Rightarrow> bool" where
  "is_header_line l = (startswith (strip l) (CHR ''['') \<and> endswith (strip l) (CHR '']''))"

definition comment_block :: "string list \<Rightarrow> nat \<Rightarrow> string list" where
  "comment_block lines n =
     rev (takeWhile (\<lambda>l. is_comment_line l \<or> is_blank_line l) (rev (take n lines)))"

definition comment_text :: "string \<Rightarrow> string" where
  "comment_text l = strip (tl (strip l))"

definition section_A :: ConfigSection where
  "section_A = \<lparr>section_name = ''A'', section_tooltip = [], section_line_number = 0, entries = []\<rparr>"

text \<open>
  The line numbers of the entries; the line \<open>save_ini\<close> puts in place of the original
  line \<open>orig\<close> of an entry whose widget is \<open>w\<close>; loading a text and saving it at once;
  the user setting one widget; the number of positions at which two lists of lines differ.
\<close>

definition entry_lines :: "ConfigSection list \<Rightarrow> nat list" where
  "entry_lines doc = concat (map (\<lambda>s. map entry_line_number (entries s)) doc)"

definition rendered :: "string \<Rightarrow> ConfigEntry \<Rightarrow> widget \<Rightarrow> string" where
  "rendered orig entry w =
     replicate (leading_space orig) (CHR '' '') @ new_line_of entry (widget_value w) @ [NL]"

definition round_trip :: "string \<Rightarrow> error + string" where
  "round_trip txt =
     (case load_ini (readlines txt) of
        Inl e \<Rightarrow> Inl e
      | Inr editor \<Rightarrow>
          (case save_ini editor of
             Inl e \<Rightarrow> Inl e
           | Inr new_lines \<Rightarrow> Inr (writelines new_lines)))"

definition edit_widget :: "ConfigEditor \<Rightarrow> string \<times> string \<Rightarrow> widget \<Rightarrow> ConfigEditor" where
  "edit_widget editor key w = editor\<lparr>widgets := (widgets editor)(key \<mapsto> w)\<rparr>"

definition changed_lines :: "string list \<Rightarrow> string list \<Rightarrow> nat" where
  "changed_lines xs ys = length (filter (\<lambda>(a, b). a \<noteq> b) (zip xs ys))"

text \<open>Sample documents and editor states.\<close>

definition entry_Foo :: ConfigEntry where
  "entry_Foo = \<lparr>entry_name = ''Foo'', entry_value = ''abc'', entry_tooltip = [],
                entry_line_number = 1, inline_comment = []\<rparr>"

definition entry_Bar :: ConfigEntry where
  "entry_Bar = \<lparr>entry_name = ''Bar'', entry_value = ''xyz'', entry_tooltip = [],
                entry_line_number = 2, inline_comment = []\<rparr>"

definition two_entry_lines :: "string list" where
  "two_entry_lines = [''[A]\<newline>'', ''Foo = abc\<newline>'', ''Bar = xyz\<newline>'']"

definition two_entry_doc :: "ConfigSection list" where
  "two_entry_doc = [\<lparr>section_name = ''A'', section_tooltip = [], section_line_number = 0,
                      entries = [entry_Foo, entry_Bar]\<rparr>]"

definition two_entry_widgets :: "string \<times> string \<Rightarrow> widget option" where
  "two_entry_widgets =
     [(''A'', ''Foo'') \<mapsto> QLineEdit ''abc'', (''A'', ''Bar'') \<mapsto> QLineEdit ''xyz'']"

definition commented_lines :: "string list" where
  "commented_lines = [''; note\<newline>'', ''[A]\<newline>'', ''  Foo = abc ; c\<newline>'']"

definition commented_entry :: ConfigEntry where
  "commented_entry = \<lparr>entry_name = ''Foo'', entry_value = ''abc'', entry_tooltip = ''c'',
                      entry_line_number = 2, inline_comment = ''c''\<rparr>"

definition commented_doc :: "ConfigSection list" where
  "commented_doc = [\<lparr>section_name = ''A'', section_tooltip = ''note'', section_line_number = 1,
                      entries = [commented_entry]\<rparr>]"

definition mismatched_editor :: ConfigEditor where
  "mismatched_editor =
     \<lparr>sections = [\<lparr>section_name = ''A'', section_tooltip = [], section_line_number = 0,
                   entries = [entry_Foo\<lparr>entry_line_number := 5\<rparr>]\<rparr>],
      widgets = [(''A'', ''Foo'') \<mapsto> QLineEdit ''abc''],
      original_lines = [''[A]\<newline>'']\<rparr>"

definition short_editor :: ConfigEditor where
  "short_editor =
     \<lparr>sections = two_entry_doc, widgets = two_entry_widgets,
      original_lines = [''[A]\<newline>'', ''Foo = abc\<newline>'']\<rparr>"

section \<open>Strings\<close>

lemma not_isspace_eq [simp]: "\<not> isspace (CHR ''='')"
  by (simp add: isspace_def)
lemma not_isspace_semi [simp]: "\<not> isspace (CHR '';'')"
  by (simp add: isspace_def)
lemma not_isspace_lbr [simp]: "\<not> isspace (CHR ''['')"
  by (simp add: isspace_def)
lemma not_isspace_rbr [simp]: "\<not> isspace (CHR '']'')"
  by (simp add: isspace_def)

lemma set_dropWhile_keep: "\<not> P c \<Longrightarrow> c \<in> set (dropWhile P s) \<longleftrightarrow> c \<in> set s"
  by (induction s) auto

lemma set_strip: "\<not> isspace c \<Longrightarrow> c \<in> set (strip s) \<longleftrightarrow> c \<in> set s"
  by (simp add: strip_def rstrip_def lstrip_def set_dropWhile_keep)

lemma split_once_append: "c \<notin> set k \<Longrightarrow> split_once (k @ c # v) c = (k, v)"
  unfolding split_once_def by (induction k) auto

section \<open>The parser keeps its line numbers in order\<close>

lemma source_lines_append_entry:
  "secs \<noteq> [] \<Longrightarrow> source_lines (append_entry secs e) = source_lines secs @ [entry_line_number e]"
proof -
  assume "secs \<noteq> []"
  then have "secs = butlast secs @ [last secs]" by simp
  then have "source_lines secs = source_lines (butlast secs) @ section_line_number (last secs) # map entry_line_number (entries (last secs))"
    by (metis (no_types, lifting) source_lines_def concat.simps concat_append list.simps(8,9) map_append append_Nil2)
  then show ?thesis
    by (simp add: append_entry_def source_lines_def)
qed


lemma source_lines_snoc_section:
  "source_lines (secs @ [\<lparr>section_name = nm, section_tooltip = t, section_line_number = i, entries = []\<rparr>])
     = source_lines secs @ [i]"
  by (simp add: source_lines_def)

lemma parse_line_total:
  "i \<le> length lines \<Longrightarrow> \<exists>secs'. parse_line lines i raw secs = Inr secs'"
  by (simp add: parse_line_def parse_comments_def Let_def split: prod.splits)

lemma parse_line_source_lines:
  "parse_line lines i raw secs = Inr secs' \<Longrightarrow>
     source_lines secs' = source_lines secs \<or> source_lines secs' = source_lines secs @ [i]"
  by (auto simp: parse_line_def Let_def source_lines_append_entry source_lines_snoc_section
           split: prod.splits sum.splits if_splits)


lemma parse_loop_total:
  "i + length rest \<le> length lines \<Longrightarrow> \<exists>doc. parse_loop lines i rest secs = Inr doc"
proof (induction rest arbitrary: i secs)
  case Nil
  then show ?case by simp
next
  case (Cons raw rest)
  then have "i \<le> length lines" by simp
  then obtain secs' where s: "parse_line lines i raw secs = Inr secs'"
    using parse_line_total by blast
  from Cons.prems have "Suc i + length rest \<le> length lines" by simp
  from Cons.IH [OF this] s show ?case by simp
qed

lemma parse_loop_source_lines:
  "parse_loop lines i rest secs = Inr doc \<Longrightarrow>
     \<exists>ks. source_lines doc = source_lines secs @ ks \<and> sorted_wrt (<) ks
          \<and> set ks \<subseteq> {i..<i + length rest}"
proof (induction rest arbitrary: i secs)
  case Nil
  then show ?case by simp
next
  case (Cons raw rest)
  from Cons.prems obtain secs' where s: "parse_line lines i raw secs = Inr secs'"
    and l: "parse_loop lines (Suc i) rest secs' = Inr doc"
    by (auto split: sum.splits)
  from Cons.IH [OF l] obtain ks where ks: "source_lines doc = source_lines secs' @ ks"
    "sorted_wrt (<) ks" "set ks \<subseteq> {Suc i..<Suc i + length rest}"
    by blast
  from parse_line_source_lines [OF s] show ?case
  proof
    assume "source_lines secs' = source_lines secs"
    with ks show ?thesis by (intro exI [of _ ks]) auto
  next
    assume "source_lines secs' = source_lines secs @ [i]"
    with ks show ?thesis by (intro exI [of _ "i # ks"]) auto
  qed
qed

lemma parse_source_lines:
  assumes "parse_ini_with_comments lines = Inr (doc, raw)"
  shows "raw = lines" and "sorted_wrt (<) (source_lines doc)"
    and "\<forall>n\<in>set (source_lines doc). n < length lines"
proof -
  from assms have l: "parse_loop lines 0 lines [] = Inr doc" and r: "raw = lines"
    by (auto simp: parse_ini_with_comments_def split: sum.splits)
  from parse_loop_source_lines [OF l] obtain ks where
    "source_lines doc = source_lines [] @ ks" "sorted_wrt (<) ks" "set ks \<subseteq> {0..<0 + length lines}"
    by blast
  then show "sorted_wrt (<) (source_lines doc)" "\<forall>n\<in>set (source_lines doc). n < length lines"
    by (auto simp: source_lines_def)
  show "raw = lines" by (rule r)
qed

lemma parse_total: "\<exists>doc. parse_ini_with_comments lines = Inr (doc, lines)"
  using parse_loop_total [of 0 lines lines "[]"] by (auto simp: parse_ini_with_comments_def)


lemma source_lines_Cons:
  "source_lines (s # doc) = section_line_number s # map entry_line_number (entries s) @ source_lines doc"
  by (simp add: source_lines_def)

lemma section_line_in_source_lines:
  "s \<in> set doc \<Longrightarrow> section_line_number s \<in> set (source_lines doc)"
  by (auto simp: source_lines_def)

lemma entry_line_in_source_lines:
  "s \<in> set doc \<Longrightarrow> e \<in> set (entries s) \<Longrightarrow> entry_line_number e \<in> set (source_lines doc)"
  by (auto simp: source_lines_def)

lemma sorted_section_before_entry:
  "sorted_wrt (<) (source_lines doc) \<Longrightarrow> s \<in> set doc \<Longrightarrow> e \<in> set (entries s) \<Longrightarrow>
     section_line_number s < entry_line_number e"
  by (induction doc) (auto simp: source_lines_Cons sorted_wrt_append)

lemma sorted_entries_increasing:
  "sorted_wrt (<) (source_lines doc) \<Longrightarrow> s \<in> set doc \<Longrightarrow>
     sorted_wrt (<) (map entry_line_number (entries s))"
  by (induction doc) (auto simp: source_lines_Cons sorted_wrt_append)

lemma sorted_sections_increasing:
  "sorted_wrt (<) (source_lines doc) \<Longrightarrow> j < length doc \<Longrightarrow> i < j \<Longrightarrow>
     section_line_number (doc ! i) < section_line_number (doc ! j) \<and>
     (\<forall>e\<in>set (entries (doc ! i)). entry_line_number e < section_line_number (doc ! j))"
proof (induction doc arbitrary: i j)
  case Nil
  then show ?case by simp
next
  case (Cons s doc)
  from Cons.prems(2,3) obtain j' where j: "j = Suc j'" "j' < length doc"
    by (cases j) auto
  have in_doc: "section_line_number (doc ! j') \<in> set (source_lines doc)"
    using j by (simp add: section_line_in_source_lines)
  show ?case
  proof (cases i)
    case 0
    with Cons.prems(1) in_doc j show ?thesis
      by (auto simp: source_lines_Cons sorted_wrt_append)
  next
    case (Suc i')
    with Cons.prems j have "sorted_wrt (<) (source_lines doc)" "j' < length doc" "i' < j'"
      by (auto simp: source_lines_Cons sorted_wrt_append)
    from Cons.IH [OF this] Suc j show ?thesis by simp
  qed
qed

section \<open>How the parser classifies and splits a line\<close>

text \<open>
  C9 (header classification takes precedence).  A line whose trimmed content starts with
  \<open>[\<close> and ends with \<open>]\<close> makes the parser append a section named by the text between
  the brackets, with no entries, and leaves every existing section as it was: no entry
  is made from the line, whether it contains \<open>=\<close> or not and whether a section is active
  or not.
\<close>

theorem header_line_makes_section:
  assumes "strip raw = CHR ''['' # nm @ '']''" and "i \<le> length lines"
  shows "\<exists>tooltip. parse_line lines i raw secs =
           Inr (secs @ [\<lparr>section_name = nm, section_tooltip = tooltip,
                          section_line_number = i, entries = []\<rparr>])"
  using assms by (simp add: parse_line_def parse_comments_def endswith_def butlast_append)

lemma parse_line_entry:
  assumes "strip raw = k @ CHR ''='' # v" and "CHR ''='' \<notin> set k"
    and "\<not> is_comment_line raw" and "\<not> is_header_line raw"
    and "secs \<noteq> []" and "i \<le> length lines"
  shows "\<exists>e. parse_line lines i raw secs = Inr (append_entry secs e)
           \<and> entry_name e = strip k \<and> entry_line_number e = i
           \<and> (CHR '';'' \<notin> set v \<longrightarrow> entry_value e = strip v \<and> inline_comment e = [])
           \<and> (\<forall>a b. strip v = a @ CHR '';'' # b \<and> CHR '';'' \<notin> set a \<longrightarrow>
                  entry_value e = strip a \<and> inline_comment e = strip b)"
proof -
  have sp: "split_once (strip raw) (CHR ''='') = (k, v)"
    using assms(1,2) by (simp add: split_once_append)
  obtain t where t: "parse_comments lines i = Inr t"
    using assms(6) by (simp add: parse_comments_def)
  have cls: "strip raw \<noteq> []" "\<not> startswith (strip raw) (CHR '';'')"
    "\<not> (startswith (strip raw) (CHR ''['') \<and> endswith (strip raw) (CHR '']''))"
    "CHR ''='' \<in> set (strip raw)"
    using assms(1,3,4) by (auto simp: is_comment_line_def is_header_line_def)
  show ?thesis
  proof (cases "CHR '';'' \<in> set (strip v)")
    case False
    then have nv: "CHR '';'' \<notin> set v" by (simp add: set_strip)
    have nd: "\<And>a b. strip v \<noteq> a @ CHR '';'' # b"
      using False by auto
    define e where "e = \<lparr>entry_name = strip k, entry_value = strip v, entry_tooltip = t,
         entry_line_number = i, inline_comment = []\<rparr>"
    have "parse_line lines i raw secs = Inr (append_entry secs e)"
      unfolding e_def using cls sp t False assms(5) by (auto simp: parse_line_def Let_def)
    moreover have "entry_name e = strip k" "entry_line_number e = i" "entry_value e = strip v"
      "inline_comment e = []"
      by (simp_all add: e_def)
    ultimately show ?thesis using nv nd by (intro exI [of _ e]) auto
  next
    case True
    then have iv: "CHR '';'' \<in> set v" by (simp add: set_strip)
    obtain a0 b0 where ab: "split_once (strip v) (CHR '';'') = (a0, b0)"
      by (cases "split_once (strip v) (CHR '';'')") auto
    have uniq: "\<And>a b. strip v = a @ CHR '';'' # b \<Longrightarrow> CHR '';'' \<notin> set a \<Longrightarrow> a = a0 \<and> b = b0"
      using ab by (simp add: split_once_append)
    define e where "e = \<lparr>entry_name = strip k, entry_value = strip a0,
         entry_tooltip = (if t \<noteq> [] then t @ [NL] @ strip b0 else strip b0),
         entry_line_number = i, inline_comment = strip b0\<rparr>"
    have "parse_line lines i raw secs = Inr (append_entry secs e)"
      unfolding e_def using cls sp t True ab assms(5) by (auto simp: parse_line_def Let_def)
    moreover have "entry_name e = strip k" "entry_line_number e = i" "entry_value e = strip a0"
      "inline_comment e = strip b0"
      by (simp_all add: e_def)
    ultimately show ?thesis using iv uniq by (intro exI [of _ e]) auto
  qed
qed



lemma split_at_first: "c \<in> set s \<Longrightarrow> s = takeWhile (\<lambda>x. x \<noteq> c) s @ c # tl (dropWhile (\<lambda>x. x \<noteq> c) s)"
  by (induction s) auto

lemma append_entry_names:
  "secs \<noteq> [] \<Longrightarrow> map section_name (append_entry secs e) = map section_name secs
     \<and> map section_line_number (append_entry secs e) = map section_line_number secs"
proof -
  assume "secs \<noteq> []"
  then have "secs = butlast secs @ [last secs]" by simp
  then have "map section_name secs = map section_name (butlast secs) @ [section_name (last secs)]"
    "map section_line_number secs = map section_line_number (butlast secs) @ [section_line_number (last secs)]"
    by (metis list.simps(8,9) map_append)+
  then show ?thesis by (simp add: append_entry_def)
qed

text \<open>
  C5, as amended (unterminated header).  A line whose trimmed content starts with \<open>[\<close>
  but does not end with \<open>]\<close> is never taken as a section header and raises no error.
  It is ignored when it contains no \<open>=\<close> or when no section is active; when it contains
  \<open>=\<close> and a section is active it is parsed as an ordinary entry line of that section.
\<close>

theorem unterminated_header_line:
  assumes "startswith (strip raw) (CHR ''['')" and "\<not> endswith (strip raw) (CHR '']'')"
    and "i \<le> length lines"
  shows "(CHR ''='' \<notin> set raw \<or> secs = [] \<longrightarrow> parse_line lines i raw secs = Inr secs)
       \<and> (CHR ''='' \<in> set raw \<and> secs \<noteq> [] \<longrightarrow>
            (\<exists>e. parse_line lines i raw secs = Inr (append_entry secs e)
                 \<and> entry_line_number e = i
                 \<and> entry_name e = strip (takeWhile (\<lambda>c. c \<noteq> CHR ''='') (strip raw))))
       \<and> (\<exists>secs'. parse_line lines i raw secs = Inr secs'
                 \<and> map section_name secs' = map section_name secs
                 \<and> map section_line_number secs' = map section_line_number secs)"
proof -
  have nc: "\<not> is_comment_line raw" "\<not> is_header_line raw" "strip raw \<noteq> []"
    using assms(1,2) by (cases "strip raw"; simp add: is_comment_line_def is_header_line_def)+
  have a: "parse_line lines i raw secs = Inr secs" if "CHR ''='' \<notin> set raw \<or> secs = []"
    using that nc assms(2) by (auto simp: parse_line_def set_strip is_comment_line_def)
  have b: "\<exists>e. parse_line lines i raw secs = Inr (append_entry secs e)
                 \<and> entry_line_number e = i
                 \<and> entry_name e = strip (takeWhile (\<lambda>c. c \<noteq> CHR ''='') (strip raw))"
    if h: "CHR ''='' \<in> set raw \<and> secs \<noteq> []"
  proof -
    from h have "CHR ''='' \<in> set (strip raw)" by (simp add: set_strip)
    then have d: "strip raw = takeWhile (\<lambda>c. c \<noteq> CHR ''='') (strip raw) @ CHR ''=''
                     # tl (dropWhile (\<lambda>c. c \<noteq> CHR ''='') (strip raw))"
      by (rule split_at_first)
    have n: "CHR ''='' \<notin> set (takeWhile (\<lambda>c. c \<noteq> CHR ''='') (strip raw))"
      by (auto dest: set_takeWhileD)
    from parse_line_entry [OF d n nc(1,2) _ assms(3)] h show ?thesis by blast
  qed
  have c: "\<exists>secs'. parse_line lines i raw secs = Inr secs'
                 \<and> map section_name secs' = map section_name secs
                 \<and> map section_line_number secs' = map section_line_number secs"
  proof (cases "CHR ''='' \<in> set raw \<and> secs \<noteq> []")
    case True
    with b obtain e where "parse_line lines i raw secs = Inr (append_entry secs e)" by blast
    with True show ?thesis by (simp add: append_entry_names)
  next
    case False
    with a show ?thesis by auto
  qed
  from a b c show ?thesis by blast
qed

lemma parse_line_orphan: "\<not> is_header_line raw \<Longrightarrow> parse_line lines i raw [] = Inr []"
  by (auto simp: parse_line_def is_header_line_def Let_def)

lemma parse_loop_orphans:
  "\<forall>l\<in>set pre. \<not> is_header_line l \<Longrightarrow>
     parse_loop lines i (pre @ rest) [] = parse_loop lines (i + length pre) rest []"
  by (induction pre arbitrary: i) (simp_all add: parse_line_orphan)

text \<open>
  C7 (orphan tolerance).  When no line up to and including line \<open>j\<close> is a section header,
  parsing succeeds and no section and no entry of the document refers to line \<open>j\<close>: the
  \<open>key=value\<close> lines before the first header are dropped.
\<close>

theorem orphan_lines_dropped:
  assumes "j < length lines" and "\<forall>k\<le>j. \<not> is_header_line (lines ! k)"
  shows "\<exists>doc. parse_ini_with_comments lines = Inr (doc, lines)
           \<and> (\<forall>s\<in>set doc. j < section_line_number s
                 \<and> (\<forall>e\<in>set (entries s). entry_line_number e \<noteq> j \<and> j < entry_line_number e))"
proof -
  have pre: "\<forall>l\<in>set (take (Suc j) lines). \<not> is_header_line l"
    using assms by (auto simp: in_set_conv_nth)
  have "parse_loop lines 0 (take (Suc j) lines @ drop (Suc j) lines) []
          = parse_loop lines (0 + length (take (Suc j) lines)) (drop (Suc j) lines) []"
    using pre by (rule parse_loop_orphans)
  then have eq: "parse_loop lines 0 lines [] = parse_loop lines (Suc j) (drop (Suc j) lines) []"
    using assms(1) by (simp add: min_def)
  have "Suc j + length (drop (Suc j) lines) \<le> length lines" using assms(1) by simp
  then obtain doc where doc: "parse_loop lines (Suc j) (drop (Suc j) lines) [] = Inr doc"
    using parse_loop_total by blast
  from parse_loop_source_lines [OF doc] obtain ks where
    "source_lines doc = source_lines [] @ ks"
    "set ks \<subseteq> {Suc j..<Suc j + length (drop (Suc j) lines)}"
    by blast
  then have low: "\<forall>n\<in>set (source_lines doc). j < n"
    by (auto simp: source_lines_def)
  have "parse_ini_with_comments lines = Inr (doc, lines)"
    using eq doc by (simp add: parse_ini_with_comments_def)
  moreover have "\<forall>s\<in>set doc. j < section_line_number s
                 \<and> (\<forall>e\<in>set (entries s). entry_line_number e \<noteq> j \<and> j < entry_line_number e)"
    using low section_line_in_source_lines entry_line_in_source_lines by fastforce
  ultimately show ?thesis by blast
qed

lemma comment_block_Suc:
  "n < length lines \<Longrightarrow>
     comment_block lines (Suc n) =
       (if is_comment_line (lines ! n) \<or> is_blank_line (lines ! n)
        then comment_block lines n @ [lines ! n] else [])"
  by (simp add: comment_block_def take_Suc_conv_app_nth)

lemma parse_comments_loop_block:
  "n \<le> length lines \<Longrightarrow>
     parse_comments_loop lines n acc
       = map comment_text (filter is_comment_line (comment_block lines n)) @ acc"
proof (induction n arbitrary: acc)
  case 0
  then show ?case by (simp add: comment_block_def)
next
  case (Suc n)
  then have n: "n < length lines" "n \<le> length lines" by simp_all
  show ?case
    using Suc.IH [OF n(2)] comment_block_Suc [OF n(1)]
    by (auto simp: Let_def is_comment_line_def is_blank_line_def comment_text_def)
qed

lemma strip_outer:
  "strip s = [] \<or> (\<not> isspace (hd (strip s)) \<and> \<not> isspace (last (strip s)))"
proof (cases "strip s = []")
  case True
  then show ?thesis by simp
next
  case False
  have ne: "dropWhile isspace (rev (lstrip s)) \<noteq> []"
    using False by (simp add: strip_def rstrip_def)
  have l: "\<not> isspace (last (strip s))"
    using ne hd_dropWhile [OF ne] by (simp add: strip_def rstrip_def last_rev)
  have "lstrip s \<noteq> []" using False by (auto simp: strip_def rstrip_def)
  then have h0: "\<not> isspace (hd (lstrip s))"
    using hd_dropWhile [of isspace s] by (simp add: lstrip_def)
  have "hd (strip s) = hd (lstrip s)"
  proof -
    obtain c cs where c: "lstrip s = c # cs" using \<open>lstrip s \<noteq> []\<close> by (cases "lstrip s") auto
    with h0 have "\<not> isspace c" by simp
    then have "rev (dropWhile isspace (rev cs @ [c])) = c # rev (dropWhile isspace (rev cs))"
      by (simp add: dropWhile_append)
    then show ?thesis using c by (simp add: strip_def rstrip_def)
  qed
  with h0 l show ?thesis by simp
qed

text \<open>
  C4, as amended (comment marker stripping).  The leading-comment scan collects, top to
  bottom, the comment lines of the block of comment and blank lines right above the
  line; from each it removes the surrounding whitespace, the first character (the
  marker) and then all leading and trailing whitespace of what remains, so no
  surrounding whitespace is retained.  The pieces are joined by newlines.
\<close>

theorem comment_text_is_fully_stripped:
  assumes "start_idx \<le> length lines"
  shows "parse_comments lines start_idx
           = Inr (join_lines (map (\<lambda>l. strip (tl (strip l)))
                   (filter is_comment_line (comment_block lines start_idx))))
       \<and> (\<forall>l. strip (tl (strip l)) = [] \<or>
                (\<not> isspace (hd (strip (tl (strip l)))) \<and> \<not> isspace (last (strip (tl (strip l))))))"
  using assms strip_outer
  by (simp add: parse_comments_def parse_comments_loop_block comment_text_def [abs_def])


theorem header_line_makes_section_witness:
  "strip ''[a=b]\<newline>'' = CHR ''['' # ''a=b'' @ '']''
   \<and> (\<exists>tooltip. parse_line [''[A]\<newline>'', ''[a=b]\<newline>''] 1 ''[a=b]\<newline>'' [section_A] =
          Inr ([section_A] @ [\<lparr>section_name = ''a=b'', section_tooltip = tooltip,
                                section_line_number = 1, entries = []\<rparr>]))"
proof -
  have h: "strip ''[a=b]\<newline>'' = CHR ''['' # ''a=b'' @ '']''" by code_simp
  have l: "(1::nat) \<le> length [''[A]\<newline>'', ''[a=b]\<newline>'']" by simp
  from header_line_makes_section [OF h l] h show ?thesis by blast
qed


text \<open>The claim as first stated fails: inside a section, \<open>[Sec=tion\<close> becomes an entry.\<close>

theorem unterminated_header_counterexample:
  "startswith (strip ''[Sec=tion\<newline>'') (CHR ''['')
   \<and> \<not> endswith (strip ''[Sec=tion\<newline>'') (CHR '']'')
   \<and> parse_ini_with_comments [''[A]\<newline>'', ''[Sec=tion\<newline>'']
       = Inr ([\<lparr>section_name = ''A'', section_tooltip = [], section_line_number = 0,
                 entries = [\<lparr>entry_name = ''[Sec'', entry_value = ''tion'', entry_tooltip = [],
                             entry_line_number = 1, inline_comment = []\<rparr>]\<rparr>],
              [''[A]\<newline>'', ''[Sec=tion\<newline>''])"
  by code_simp

theorem unterminated_header_line_witness:
  "parse_line [''[A]\<newline>'', ''[Section\<newline>''] 1 ''[Section\<newline>'' [section_A] = Inr [section_A]
   \<and> (\<exists>e. parse_line [''[A]\<newline>'', ''[Sec=tion\<newline>''] 1 ''[Sec=tion\<newline>'' [section_A]
             = Inr (append_entry [section_A] e)
          \<and> entry_line_number e = 1 \<and> entry_name e = ''[Sec'')"
proof -
  have a1: "startswith (strip ''[Section\<newline>'') (CHR ''['')" by code_simp
  have a2: "\<not> endswith (strip ''[Section\<newline>'') (CHR '']'')" by code_simp
  have a3: "(1::nat) \<le> length [''[A]\<newline>'', ''[Section\<newline>'']" by simp
  have a4: "CHR ''='' \<notin> set ''[Section\<newline>''" by simp
  have b1: "startswith (strip ''[Sec=tion\<newline>'') (CHR ''['')" by code_simp
  have b2: "\<not> endswith (strip ''[Sec=tion\<newline>'') (CHR '']'')" by code_simp
  have b3: "(1::nat) \<le> length [''[A]\<newline>'', ''[Sec=tion\<newline>'']" by simp
  have b4: "CHR ''='' \<in> set ''[Sec=tion\<newline>'' \<and> [section_A] \<noteq> []" by simp
  have b5: "strip (takeWhile (\<lambda>c. c \<noteq> CHR ''='') (strip ''[Sec=tion\<newline>'')) = ''[Sec''" by code_simp
  from unterminated_header_line [OF a1 a2 a3, of "[section_A]"] a4
  have "parse_line [''[A]\<newline>'', ''[Section\<newline>''] 1 ''[Section\<newline>'' [section_A] = Inr [section_A]"
    by blast
  moreover from unterminated_header_line [OF b1 b2 b3, of "[section_A]"] b4 b5
  have "\<exists>e. parse_line [''[A]\<newline>'', ''[Sec=tion\<newline>''] 1 ''[Sec=tion\<newline>'' [section_A]
             = Inr (append_entry [section_A] e)
          \<and> entry_line_number e = 1 \<and> entry_name e = ''[Sec''"
    by auto
  ultimately show ?thesis by blast
qed

theorem orphan_lines_dropped_witness:
  "\<exists>doc. parse_ini_with_comments [''stray=1\<newline>'', ''[A]\<newline>'', ''k=v\<newline>'']
            = Inr (doc, [''stray=1\<newline>'', ''[A]\<newline>'', ''k=v\<newline>''])
         \<and> list_all (\<lambda>s. 0 < section_line_number s
               \<and> list_all (\<lambda>e. entry_line_number e \<noteq> 0) (entries s)) doc"
proof -
  have h1: "(0::nat) < length [''stray=1\<newline>'', ''[A]\<newline>'', ''k=v\<newline>'']" by simp
  have "\<not> is_header_line ''stray=1\<newline>''" by code_simp
  then have h2: "\<forall>k\<le>0. \<not> is_header_line ([''stray=1\<newline>'', ''[A]\<newline>'', ''k=v\<newline>''] ! k)" by simp
  from orphan_lines_dropped [OF h1 h2] show ?thesis
    by (simp add: list_all_iff)
qed

text \<open>The claim as first stated fails: neither the second space after \<open>;\<close> nor the trailing spaces are kept.\<close>

theorem comment_stripping_counterexample:
  "parse_comments ['';  hi  \<newline>'', ''[A]\<newline>''] 1 = Inr ''hi''
   \<and> parse_comments ['';  hi  \<newline>'', ''[A]\<newline>''] 1 \<noteq> Inr '' hi  ''"
  by code_simp

theorem comment_text_is_fully_stripped_witness:
  "parse_comments ['';  hi  \<newline>'', ''\<newline>'', '';; x \<newline>'', ''[A]\<newline>''] 3 = Inr ''hi\<newline>; x''"
proof -
  have h: "(3::nat) \<le> length ['';  hi  \<newline>'', ''\<newline>'', '';; x \<newline>'', ''[A]\<newline>'']" by simp
  have "join_lines (map (\<lambda>l. strip (tl (strip l))) (filter is_comment_line
          (comment_block ['';  hi  \<newline>'', ''\<newline>'', '';; x \<newline>'', ''[A]\<newline>''] 3))) = ''hi\<newline>; x''"
    by code_simp
  with comment_text_is_fully_stripped [OF h] show ?thesis by simp
qed


section \<open>Line numbers of a parsed document\<close>

text \<open>
  C10 (source-line monotonicity).  For every parsed document the recorded line numbers
  are strictly increasing in traversal order: every entry lies below its section's
  header, the entries of a section are in strictly increasing line order, every section
  header lies below all earlier sections and their entries, and every recorded line
  number is an index into the returned raw lines.
\<close>

theorem source_line_monotonicity:
  assumes "parse_ini_with_comments lines = Inr (doc, raw)"
  shows "sorted_wrt (<) (source_lines doc)
       \<and> (\<forall>s\<in>set doc. \<forall>e\<in>set (entries s). section_line_number s < entry_line_number e)
       \<and> (\<forall>s\<in>set doc. sorted_wrt (<) (map entry_line_number (entries s)))
       \<and> (\<forall>j<length doc. \<forall>i<j.
            section_line_number (doc ! i) < section_line_number (doc ! j) \<and>
            (\<forall>e\<in>set (entries (doc ! i)). entry_line_number e < section_line_number (doc ! j)))
       \<and> (\<forall>n\<in>set (source_lines doc). n < length raw)"
proof -
  note p = parse_source_lines [OF assms]
  have "\<forall>s\<in>set doc. \<forall>e\<in>set (entries s). section_line_number s < entry_line_number e"
    using p(2) sorted_section_before_entry by blast
  moreover have "\<forall>s\<in>set doc. sorted_wrt (<) (map entry_line_number (entries s))"
    using p(2) sorted_entries_increasing by blast
  moreover have "\<forall>j<length doc. \<forall>i<j.
            section_line_number (doc ! i) < section_line_number (doc ! j) \<and>
            (\<forall>e\<in>set (entries (doc ! i)). entry_line_number e < section_line_number (doc ! j))"
    using p(2) sorted_sections_increasing by blast
  ultimately show ?thesis using p by simp
qed

lemma parse_sample: "parse_ini_with_comments sample_lines = Inr (sample_doc, sample_lines)"
  by code_simp

theorem source_line_monotonicity_witness:
  "parse_ini_with_comments sample_lines = Inr (sample_doc, sample_lines)
   \<and> source_lines sample_doc = [1, 2, 4, 5, 6]
   \<and> sorted_wrt (<) (source_lines sample_doc)
   \<and> length sample_lines = 7"
proof -
  have "source_lines sample_doc = [1, 2, 4, 5, 6]" by code_simp
  moreover have "length sample_lines = 7" by code_simp
  ultimately show ?thesis
    using source_line_monotonicity [OF parse_sample] parse_sample by simp
qed

section \<open>The writer\<close>

lemma entry_lines_Cons:
  "entry_lines (s # doc) = map entry_line_number (entries s) @ entry_lines doc"
  by (simp add: entry_lines_def)

lemma entry_lines_subset: "set (entry_lines doc) \<subseteq> set (source_lines doc)"
  by (auto simp: entry_lines_def source_lines_def)

lemma entry_line_in_entry_lines:
  "s \<in> set doc \<Longrightarrow> e \<in> set (entries s) \<Longrightarrow> entry_line_number e \<in> set (entry_lines doc)"
  by (auto simp: entry_lines_def)

lemma distinct_entry_lines:
  "distinct (source_lines doc) \<Longrightarrow> distinct (entry_lines doc)"
proof (induction doc)
  case Nil
  then show ?case by (simp add: entry_lines_def)
next
  case (Cons s doc)
  with entry_lines_subset [of doc] show ?case
    by (auto simp: entry_lines_Cons source_lines_Cons)
qed

lemma save_entry_Inr:
  assumes "save_entry ws sn e nl = Inr out"
  shows "\<exists>w. ws (sn, entry_name e) = Some w \<and> entry_line_number e < length nl
           \<and> out = nl[entry_line_number e := rendered (nl ! entry_line_number e) e w]"
  using assms by (auto simp: save_entry_def rendered_def Let_def split: option.splits if_splits)

lemma save_entries_frame:
  "save_entries ws sn es nl = Inr out \<Longrightarrow>
     length out = length nl \<and> (\<forall>i. i \<notin> entry_line_number ` set es \<longrightarrow> out ! i = nl ! i)"
proof (induction es arbitrary: nl)
  case Nil
  then show ?case by simp
next
  case (Cons e es)
  from Cons.prems obtain nl' where s: "save_entry ws sn e nl = Inr nl'"
    and r: "save_entries ws sn es nl' = Inr out"
    by (auto split: sum.splits)
  from save_entry_Inr [OF s] Cons.IH [OF r] show ?case by auto
qed

lemma save_sections_frame:
  "save_sections ws doc nl = Inr out \<Longrightarrow>
     length out = length nl \<and> (\<forall>i. i \<notin> set (entry_lines doc) \<longrightarrow> out ! i = nl ! i)"
proof (induction doc arbitrary: nl)
  case Nil
  then show ?case by simp
next
  case (Cons s doc)
  from Cons.prems obtain nl' where s: "save_entries ws (section_name s) (entries s) nl = Inr nl'"
    and r: "save_sections ws doc nl' = Inr out"
    by (auto split: sum.splits)
  from save_entries_frame [OF s] Cons.IH [OF r] show ?case
    by (auto simp: entry_lines_Cons)
qed

lemma save_entries_content:
  "distinct (map entry_line_number es) \<Longrightarrow> save_entries ws sn es nl = Inr out \<Longrightarrow>
     e \<in> set es \<Longrightarrow> ws (sn, entry_name e) = Some w \<Longrightarrow>
     out ! entry_line_number e = rendered (nl ! entry_line_number e) e w"
proof (induction es arbitrary: nl)
  case Nil
  then show ?case by simp
next
  case (Cons e0 es)
  from Cons.prems(2) obtain nl' where s: "save_entry ws sn e0 nl = Inr nl'"
    and r: "save_entries ws sn es nl' = Inr out"
    by (auto split: sum.splits)
  from save_entry_Inr [OF s] obtain w0 where w0: "ws (sn, entry_name e0) = Some w0"
    "entry_line_number e0 < length nl"
    "nl' = nl[entry_line_number e0 := rendered (nl ! entry_line_number e0) e0 w0]"
    by blast
  show ?case
  proof (cases "e = e0")
    case True
    from Cons.prems(1) have "entry_line_number e0 \<notin> entry_line_number ` set es" by simp
    with save_entries_frame [OF r] have "out ! entry_line_number e0 = nl' ! entry_line_number e0"
      by blast
    with w0 True Cons.prems(4) show ?thesis by simp
  next
    case False
    with Cons.prems(3) have in_es: "e \<in> set es" by simp
    with Cons.prems(1) have ne: "entry_line_number e \<noteq> entry_line_number e0"
      by (metis distinct.simps(2) imageI list.simps(9) list.set_map)
    from Cons.prems(1) have "distinct (map entry_line_number es)" by simp
    from Cons.IH [OF this r in_es Cons.prems(4)] ne w0(3) show ?thesis by simp
  qed
qed

lemma save_sections_content:
  "distinct (entry_lines doc) \<Longrightarrow> save_sections ws doc nl = Inr out \<Longrightarrow>
     s \<in> set doc \<Longrightarrow> e \<in> set (entries s) \<Longrightarrow> ws (section_name s, entry_name e) = Some w \<Longrightarrow>
     out ! entry_line_number e = rendered (nl ! entry_line_number e) e w"
proof (induction doc arbitrary: nl)
  case Nil
  then show ?case by simp
next
  case (Cons s0 doc)
  from Cons.prems(2) obtain nl' where
    s: "save_entries ws (section_name s0) (entries s0) nl = Inr nl'"
    and r: "save_sections ws doc nl' = Inr out"
    by (auto split: sum.splits)
  from Cons.prems(1) have d: "distinct (map entry_line_number (entries s0))"
    "distinct (entry_lines doc)"
    "set (map entry_line_number (entries s0)) \<inter> set (entry_lines doc) = {}"
    by (simp_all add: entry_lines_Cons)
  show ?case
  proof (cases "s = s0")
    case True
    with Cons.prems(4) d(3) have "entry_line_number e \<notin> set (entry_lines doc)" by auto
    with save_sections_frame [OF r] have "out ! entry_line_number e = nl' ! entry_line_number e"
      by blast
    with save_entries_content [OF d(1) s] True Cons.prems(4,5) show ?thesis by simp
  next
    case False
    with Cons.prems(3) have in_doc: "s \<in> set doc" by simp
    then have "entry_line_number e \<in> set (entry_lines doc)"
      using Cons.prems(4) by (rule entry_line_in_entry_lines)
    with d(3) have "entry_line_number e \<notin> entry_line_number ` set (entries s0)" by auto
    with save_entries_frame [OF s] have "nl' ! entry_line_number e = nl ! entry_line_number e"
      by blast
    with Cons.IH [OF d(2) r in_doc Cons.prems(4,5)] show ?thesis by simp
  qed
qed

lemma save_entries_ok:
  "\<forall>e\<in>set es. ws (sn, entry_name e) \<noteq> None \<and> entry_line_number e < length nl \<Longrightarrow>
     \<exists>out. save_entries ws sn es nl = Inr out"
proof (induction es arbitrary: nl)
  case Nil
  then show ?case by simp
next
  case (Cons e es)
  then obtain nl' where s: "save_entry ws sn e nl = Inr nl'"
    by (auto simp: save_entry_def Let_def)
  with save_entry_Inr [OF s] have "length nl' = length nl" by auto
  with Cons.prems have "\<forall>e\<in>set es. ws (sn, entry_name e) \<noteq> None \<and> entry_line_number e < length nl'"
    by simp
  from Cons.IH [OF this] s show ?case by simp
qed

lemma save_sections_ok:
  "\<forall>s\<in>set doc. \<forall>e\<in>set (entries s).
      ws (section_name s, entry_name e) \<noteq> None \<and> entry_line_number e < length nl \<Longrightarrow>
     \<exists>out. save_sections ws doc nl = Inr out"
proof (induction doc arbitrary: nl)
  case Nil
  then show ?case by simp
next
  case (Cons s doc)
  then have "\<forall>e\<in>set (entries s). ws (section_name s, entry_name e) \<noteq> None
      \<and> entry_line_number e < length nl" by simp
  from save_entries_ok [OF this] obtain nl' where
    s: "save_entries ws (section_name s) (entries s) nl = Inr nl'" by blast
  with save_entries_frame [OF s] have "length nl' = length nl" by simp
  with Cons.prems have "\<forall>s\<in>set doc. \<forall>e\<in>set (entries s).
      ws (section_name s, entry_name e) \<noteq> None \<and> entry_line_number e < length nl'" by simp
  from Cons.IH [OF this] s show ?case by simp
qed

lemma save_entries_index_error:
  "\<forall>e\<in>set es. ws (sn, entry_name e) \<noteq> None \<Longrightarrow>
   \<exists>e\<in>set es. length nl \<le> entry_line_number e \<Longrightarrow>
     save_entries ws sn es nl = Inl IndexError"
proof (induction es arbitrary: nl)
  case Nil
  then show ?case by simp
next
  case (Cons e es)
  from Cons.prems(1) obtain w where w: "ws (sn, entry_name e) = Some w" by auto
  show ?case
  proof (cases "entry_line_number e < length nl")
    case False
    with w show ?thesis by (simp add: save_entry_def Let_def)
  next
    case True
    with w obtain nl' where s: "save_entry ws sn e nl = Inr nl'" "length nl' = length nl"
      by (simp add: save_entry_def Let_def)
    from True Cons.prems(2) s(2) have "\<exists>e\<in>set es. length nl' \<le> entry_line_number e" by auto
    moreover from Cons.prems(1) have "\<forall>e\<in>set es. ws (sn, entry_name e) \<noteq> None" by simp
    ultimately have "save_entries ws sn es nl' = Inl IndexError" by (rule Cons.IH [rotated])
    with s show ?thesis by simp
  qed
qed

lemma save_sections_index_error:
  "\<forall>s\<in>set doc. \<forall>e\<in>set (entries s). ws (section_name s, entry_name e) \<noteq> None \<Longrightarrow>
   \<exists>s\<in>set doc. \<exists>e\<in>set (entries s). length nl \<le> entry_line_number e \<Longrightarrow>
     save_sections ws doc nl = Inl IndexError"
proof (induction doc arbitrary: nl)
  case Nil
  then show ?case by simp
next
  case (Cons s doc)
  have b: "\<forall>e\<in>set (entries s). ws (section_name s, entry_name e) \<noteq> None"
    using Cons.prems(1) by simp
  show ?case
  proof (cases "\<exists>e\<in>set (entries s). length nl \<le> entry_line_number e")
    case True
    from save_entries_index_error [OF b True] show ?thesis by simp
  next
    case False
    with b have "\<forall>e\<in>set (entries s). ws (section_name s, entry_name e) \<noteq> None
       \<and> entry_line_number e < length nl" by auto
    from save_entries_ok [OF this] obtain nl' where
      s: "save_entries ws (section_name s) (entries s) nl = Inr nl'" by blast
    with save_entries_frame [OF s] have l: "length nl' = length nl" by simp
    from False Cons.prems(2) l have
      "\<exists>s\<in>set doc. \<exists>e\<in>set (entries s). length nl' \<le> entry_line_number e" by auto
    moreover from Cons.prems(1) have
      "\<forall>s\<in>set doc. \<forall>e\<in>set (entries s). ws (section_name s, entry_name e) \<noteq> None" by simp
    ultimately have "save_sections ws doc nl' = Inl IndexError" by (rule Cons.IH [rotated])
    with s show ?thesis by simp
  qed
qed


lemma create_section_widget_dom:
  "create_section_widget ws sn es = Inr ws' \<Longrightarrow>
     (\<forall>k. ws k \<noteq> None \<longrightarrow> ws' k \<noteq> None) \<and> (\<forall>e\<in>set es. ws' (sn, entry_name e) \<noteq> None)"
proof (induction es arbitrary: ws)
  case Nil
  then show ?case by simp
next
  case (Cons e es)
  from Cons.prems obtain w where
    r: "create_section_widget (ws((sn, entry_name e) \<mapsto> w)) sn es = Inr ws'"
    by (auto split: sum.splits)
  from Cons.IH [OF r] show ?case by auto
qed

lemma refresh_ui_loop_dom:
  "refresh_ui_loop ws doc = Inr ws' \<Longrightarrow>
     (\<forall>k. ws k \<noteq> None \<longrightarrow> ws' k \<noteq> None)
     \<and> (\<forall>s\<in>set doc. \<forall>e\<in>set (entries s). ws' (section_name s, entry_name e) \<noteq> None)"
proof (induction doc arbitrary: ws)
  case Nil
  then show ?case by simp
next
  case (Cons s doc)
  from Cons.prems obtain ws1 where
    c: "create_section_widget ws (section_name s) (entries s) = Inr ws1"
    and r: "refresh_ui_loop ws1 doc = Inr ws'"
    by (auto split: sum.splits)
  from create_section_widget_dom [OF c] Cons.IH [OF r] show ?case by auto
qed

lemma load_ini_Inr:
  assumes "load_ini lines = Inr ed"
  shows "parse_ini_with_comments lines = Inr (sections ed, lines)"
    and "original_lines ed = lines"
    and "\<forall>s\<in>set (sections ed). \<forall>e\<in>set (entries s).
           widgets ed (section_name s, entry_name e) \<noteq> None"
proof -
  from assms obtain secs raw ws where p: "parse_ini_with_comments lines = Inr (secs, raw)"
    and u: "refresh_ui secs = Inr ws"
    and ed: "ed = \<lparr>sections = secs, widgets = ws, original_lines = raw\<rparr>"
    by (auto simp: load_ini_def split: sum.splits prod.splits)
  from parse_source_lines(1) [OF p] have raw: "raw = lines" .
  from p raw ed show "parse_ini_with_comments lines = Inr (sections ed, lines)" by simp
  from raw ed show "original_lines ed = lines" by simp
  from refresh_ui_loop_dom [of Map.empty secs ws] u ed
  show "\<forall>s\<in>set (sections ed). \<forall>e\<in>set (entries s).
           widgets ed (section_name s, entry_name e) \<noteq> None"
    by (simp add: refresh_ui_def)
qed

lemma save_parsed:
  assumes p: "parse_ini_with_comments lines = Inr (doc, raw)"
    and b: "\<forall>s\<in>set doc. \<forall>e\<in>set (entries s). ws (section_name s, entry_name e) \<noteq> None"
  shows "\<exists>out. save_sections ws doc raw = Inr out \<and> length out = length lines
           \<and> (\<forall>i. i \<notin> set (entry_lines doc) \<longrightarrow> out ! i = lines ! i)
           \<and> (\<forall>s\<in>set doc. \<forall>e\<in>set (entries s). \<forall>w.
                 ws (section_name s, entry_name e) = Some w \<longrightarrow>
                 out ! entry_line_number e = rendered (lines ! entry_line_number e) e w)"
proof -
  note sl = parse_source_lines [OF p]
  have d: "distinct (entry_lines doc)"
    using sl(2) by (simp add: strict_sorted_iff distinct_entry_lines)
  have "\<forall>s\<in>set doc. \<forall>e\<in>set (entries s). entry_line_number e < length raw"
    using sl(1,3) entry_line_in_source_lines by blast
  with b have "\<forall>s\<in>set doc. \<forall>e\<in>set (entries s).
      ws (section_name s, entry_name e) \<noteq> None \<and> entry_line_number e < length raw" by blast
  from save_sections_ok [OF this] obtain out where out: "save_sections ws doc raw = Inr out"
    by blast
  from save_sections_frame [OF out] sl(1) have
    "length out = length lines" "\<forall>i. i \<notin> set (entry_lines doc) \<longrightarrow> out ! i = lines ! i"
    by simp_all
  moreover have "\<forall>s\<in>set doc. \<forall>e\<in>set (entries s). \<forall>w.
                 ws (section_name s, entry_name e) = Some w \<longrightarrow>
                 out ! entry_line_number e = rendered (lines ! entry_line_number e) e w"
    using save_sections_content [OF d out] sl(1) by blast
  ultimately show ?thesis using out by blast
qed

lemma entry_lines_elem:
  "i \<in> set (entry_lines doc) \<Longrightarrow> \<exists>s\<in>set doc. \<exists>e\<in>set (entries s). entry_line_number e = i"
  by (auto simp: entry_lines_def)

lemma rendered_inject:
  "rendered orig e w = rendered orig e w' \<Longrightarrow> widget_value w = widget_value w'"
  by (simp add: rendered_def new_line_of_def split: if_splits)

lemma isspace_space: "isspace (CHR '' '')"
  by (simp add: isspace_def)

lemma leading_space_takeWhile: "leading_space s = length (takeWhile isspace s)"
proof -
  have "length s = length (takeWhile isspace s) + length (dropWhile isspace s)"
    by (metis length_append takeWhile_dropWhile_id)
  then show ?thesis by (simp add: leading_space_def lstrip_def)
qed

lemma replicate_all_same: "list_all (\<lambda>c. c = x) xs \<Longrightarrow> replicate (length xs) x = xs"
  by (induction xs) auto

lemma lstrip_spaces_prefix:
  "t \<noteq> [] \<Longrightarrow> \<not> isspace (hd t) \<Longrightarrow> lstrip (replicate k (CHR '' '') @ t) = t"
  by (cases t) (simp_all add: lstrip_def dropWhile_append3 isspace_space)

lemma append_entry_entries:
  assumes "secs \<noteq> []" and "s \<in> set (append_entry secs e0)" and "e \<in> set (entries s)"
  shows "e = e0 \<or> (\<exists>s0\<in>set secs. e \<in> set (entries s0))"
proof -
  from assms(2) have "s \<in> set (butlast secs) \<or> s = (last secs)\<lparr>entries := entries (last secs) @ [e0]\<rparr>"
    by (auto simp: append_entry_def)
  then show ?thesis
  proof
    assume "s \<in> set (butlast secs)"
    then have "s \<in> set secs" by (rule in_set_butlastD)
    with assms(3) show ?thesis by blast
  next
    assume "s = (last secs)\<lparr>entries := entries (last secs) @ [e0]\<rparr>"
    with assms(3) have "e = e0 \<or> e \<in> set (entries (last secs))" by auto
    with assms(1) show ?thesis using last_in_set by blast
  qed
qed

lemma parse_line_preserves:
  assumes "parse_line lines i raw secs = Inr secs'"
    and "\<forall>s\<in>set secs. \<forall>e\<in>set (entries s). P e"
    and "\<And>e k. entry_name e = strip k \<Longrightarrow> P e"
  shows "\<forall>s\<in>set secs'. \<forall>e\<in>set (entries s). P e"
  using assms
  by (auto simp: parse_line_def Let_def split: prod.splits sum.splits if_splits
           dest!: append_entry_entries)

lemma parse_loop_preserves:
  assumes "parse_loop lines i rest secs = Inr doc"
    and "\<forall>s\<in>set secs. \<forall>e\<in>set (entries s). P e"
    and "\<And>e k. entry_name e = strip k \<Longrightarrow> P e"
  shows "\<forall>s\<in>set doc. \<forall>e\<in>set (entries s). P e"
  using assms(1,2)
proof (induction rest arbitrary: i secs)
  case Nil
  then show ?case by simp
next
  case (Cons raw rest)
  from Cons.prems(1) obtain secs' where s: "parse_line lines i raw secs = Inr secs'"
    and l: "parse_loop lines (Suc i) rest secs' = Inr doc"
    by (auto split: sum.splits)
  have "\<forall>s\<in>set secs'. \<forall>e\<in>set (entries s). P e"
    using s Cons.prems(2) assms(3) by (rule parse_line_preserves [where P = P])
  from Cons.IH [OF l this] show ?case .
qed

lemma parsed_names_trimmed:
  assumes "parse_ini_with_comments lines = Inr (doc, raw)"
  shows "\<forall>s\<in>set doc. \<forall>e\<in>set (entries s).
           entry_name e = [] \<or> \<not> isspace (hd (entry_name e))"
proof -
  from assms have l: "parse_loop lines 0 lines [] = Inr doc"
    by (auto simp: parse_ini_with_comments_def split: sum.splits)
  show ?thesis
    by (rule parse_loop_preserves [OF l]) (use strip_outer in auto)
qed

lemma new_line_of_head:
  "entry_name e = [] \<or> \<not> isspace (hd (entry_name e)) \<Longrightarrow>
     new_line_of e v @ [NL] \<noteq> [] \<and> \<not> isspace (hd (new_line_of e v @ [NL]))"
  by (cases "entry_name e") (auto simp: new_line_of_def)

text \<open>
  C1, as amended (round trip without edits).  For every file that loads, saving with the
  widgets untouched succeeds and keeps the number of lines; every line that is not the
  line of an entry (section headers, comments, blank and ignored lines) is reproduced
  byte for byte; every entry line is not copied but written anew: after its indentation
  it reads \<open>name=value\<close>, formed from the entry's name and the value its widget holds,
  then the inline comment, if any, after three tabs and \<open>; \<close>, then a newline.  Where
  the original entry line is indented with spaces only, or not at all, the written line
  has the same indentation.
\<close>

theorem unedited_save_rewrites_entry_lines:
  assumes "load_ini lines = Inr ed"
  shows "\<exists>out. save_ini ed = Inr out \<and> length out = length lines
           \<and> (\<forall>i<length lines. i \<notin> set (entry_lines (sections ed)) \<longrightarrow> out ! i = lines ! i)
           \<and> (\<forall>s\<in>set (sections ed). \<forall>e\<in>set (entries s).
                 \<exists>w. widgets ed (section_name s, entry_name e) = Some w
                    \<and> lstrip (out ! entry_line_number e) = new_line_of e (widget_value w) @ [NL]
                    \<and> (list_all (\<lambda>c. c = CHR '' '') (takeWhile isspace (lines ! entry_line_number e))
                         \<longrightarrow> out ! entry_line_number e
                               = takeWhile isspace (lines ! entry_line_number e)
                                   @ new_line_of e (widget_value w) @ [NL]))"
proof -
  note l = load_ini_Inr [OF assms]
  note nm = parsed_names_trimmed [OF l(1)]
  from save_parsed [OF l(1,3)] obtain out where
    out: "save_sections (widgets ed) (sections ed) lines = Inr out" "length out = length lines"
      "\<forall>i. i \<notin> set (entry_lines (sections ed)) \<longrightarrow> out ! i = lines ! i"
      "\<forall>s\<in>set (sections ed). \<forall>e\<in>set (entries s). \<forall>w.
          widgets ed (section_name s, entry_name e) = Some w \<longrightarrow>
          out ! entry_line_number e = rendered (lines ! entry_line_number e) e w"
    by blast
  have "save_ini ed = Inr out" using out(1) l(2) by (simp add: save_ini_def)
  moreover have "\<forall>s\<in>set (sections ed). \<forall>e\<in>set (entries s).
                 \<exists>w. widgets ed (section_name s, entry_name e) = Some w
                    \<and> lstrip (out ! entry_line_number e) = new_line_of e (widget_value w) @ [NL]
                    \<and> (list_all (\<lambda>c. c = CHR '' '') (takeWhile isspace (lines ! entry_line_number e))
                         \<longrightarrow> out ! entry_line_number e
                               = takeWhile isspace (lines ! entry_line_number e)
                                   @ new_line_of e (widget_value w) @ [NL])"
  proof (intro ballI)
    fix s e assume se: "s \<in> set (sections ed)" "e \<in> set (entries s)"
    with l(3) obtain w where w: "widgets ed (section_name s, entry_name e) = Some w" by blast
    let ?orig = "lines ! entry_line_number e"
    let ?new = "new_line_of e (widget_value w) @ [NL]"
    from out(4) se w have o: "out ! entry_line_number e
         = replicate (leading_space ?orig) (CHR '' '') @ ?new"
      by (simp add: rendered_def)
    from nm se have "entry_name e = [] \<or> \<not> isspace (hd (entry_name e))" by blast
    from new_line_of_head [OF this] have h: "?new \<noteq> []" "\<not> isspace (hd ?new)" by blast+
    have a: "lstrip (out ! entry_line_number e) = ?new"
      unfolding o using h by (rule lstrip_spaces_prefix)
    have b: "out ! entry_line_number e = takeWhile isspace ?orig @ ?new"
      if "list_all (\<lambda>c. c = CHR '' '') (takeWhile isspace ?orig)"
      using replicate_all_same [OF that] o by (simp add: leading_space_takeWhile)
    from w a b show "\<exists>w. widgets ed (section_name s, entry_name e) = Some w
                    \<and> lstrip (out ! entry_line_number e) = new_line_of e (widget_value w) @ [NL]
                    \<and> (list_all (\<lambda>c. c = CHR '' '') (takeWhile isspace (lines ! entry_line_number e))
                         \<longrightarrow> out ! entry_line_number e
                               = takeWhile isspace (lines ! entry_line_number e)
                                   @ new_line_of e (widget_value w) @ [NL])"
      by blast
  qed
  ultimately show ?thesis using out(2,3) by blast
qed

text \<open>
  C2, as amended (single-field update locality).  For a parsed document all of whose
  entries have a widget, setting the widget of one (section, key) changes the written
  lines, compared with what is written without that edit, only at lines of entries named
  by that (section, key), and it does change such a line when the new value differs from
  the old one.  Compared with the raw input lines, every line that is not an entry line
  is byte-identical, while every entry line is written anew.
\<close>

theorem single_edit_locality:
  assumes "parse_ini_with_comments lines = Inr (doc, raw)"
    and "\<forall>s\<in>set doc. \<forall>e\<in>set (entries s). ws (section_name s, entry_name e) \<noteq> None"
  shows "\<exists>out out'.
           save_ini \<lparr>sections = doc, widgets = ws, original_lines = raw\<rparr> = Inr out
         \<and> save_ini \<lparr>sections = doc, widgets = ws(key \<mapsto> w'), original_lines = raw\<rparr> = Inr out'
         \<and> length out = length lines \<and> length out' = length lines
         \<and> (\<forall>i<length lines. out' ! i \<noteq> out ! i \<longrightarrow>
               (\<exists>s\<in>set doc. \<exists>e\<in>set (entries s).
                   entry_line_number e = i \<and> (section_name s, entry_name e) = key))
         \<and> (\<forall>i<length lines. i \<notin> set (entry_lines doc) \<longrightarrow> out' ! i = lines ! i)
         \<and> (\<forall>s\<in>set doc. \<forall>e\<in>set (entries s). \<forall>w.
               (section_name s, entry_name e) = key \<and> ws key = Some w
               \<and> widget_value w' \<noteq> widget_value w \<longrightarrow>
               out' ! entry_line_number e \<noteq> out ! entry_line_number e)"
proof -
  let ?ws' = "ws(key \<mapsto> w')"
  have b': "\<forall>s\<in>set doc. \<forall>e\<in>set (entries s). ?ws' (section_name s, entry_name e) \<noteq> None"
    using assms(2) by simp
  from save_parsed [OF assms(1,2)] obtain out where
    out: "save_sections ws doc raw = Inr out" "length out = length lines"
      "\<forall>i. i \<notin> set (entry_lines doc) \<longrightarrow> out ! i = lines ! i"
      "\<forall>s\<in>set doc. \<forall>e\<in>set (entries s). \<forall>w.
          ws (section_name s, entry_name e) = Some w \<longrightarrow>
          out ! entry_line_number e = rendered (lines ! entry_line_number e) e w"
    by blast
  from save_parsed [OF assms(1) b'] obtain out' where
    out': "save_sections ?ws' doc raw = Inr out'" "length out' = length lines"
      "\<forall>i. i \<notin> set (entry_lines doc) \<longrightarrow> out' ! i = lines ! i"
      "\<forall>s\<in>set doc. \<forall>e\<in>set (entries s). \<forall>w.
          ?ws' (section_name s, entry_name e) = Some w \<longrightarrow>
          out' ! entry_line_number e = rendered (lines ! entry_line_number e) e w"
    by blast
  have same: "out' ! entry_line_number e = out ! entry_line_number e"
    if "s \<in> set doc" "e \<in> set (entries s)" "(section_name s, entry_name e) \<noteq> key" for s e
  proof -
    from assms(2) that obtain w where w: "ws (section_name s, entry_name e) = Some w" by blast
    with that(3) have "?ws' (section_name s, entry_name e) = Some w" by simp
    with out'(4) out(4) w that(1,2) show ?thesis by metis
  qed
  have loc: "\<forall>i<length lines. out' ! i \<noteq> out ! i \<longrightarrow>
               (\<exists>s\<in>set doc. \<exists>e\<in>set (entries s).
                   entry_line_number e = i \<and> (section_name s, entry_name e) = key)"
  proof (intro allI impI)
    fix i assume "i < length lines" and neq: "out' ! i \<noteq> out ! i"
    with out(3) out'(3) have "i \<in> set (entry_lines doc)" by metis
    then obtain s e where se: "s \<in> set doc" "e \<in> set (entries s)" "entry_line_number e = i"
      using entry_lines_elem by blast
    with same neq have "(section_name s, entry_name e) = key" by blast
    with se show "\<exists>s\<in>set doc. \<exists>e\<in>set (entries s).
                   entry_line_number e = i \<and> (section_name s, entry_name e) = key" by blast
  qed
  have chg: "\<forall>s\<in>set doc. \<forall>e\<in>set (entries s). \<forall>w.
               (section_name s, entry_name e) = key \<and> ws key = Some w
               \<and> widget_value w' \<noteq> widget_value w \<longrightarrow>
               out' ! entry_line_number e \<noteq> out ! entry_line_number e"
  proof (intro ballI allI impI)
    fix s e w
    assume se: "s \<in> set doc" "e \<in> set (entries s)"
      and h: "(section_name s, entry_name e) = key \<and> ws key = Some w
               \<and> widget_value w' \<noteq> widget_value w"
    from h have "?ws' (section_name s, entry_name e) = Some w'" by simp
    with out'(4) se have a: "out' ! entry_line_number e = rendered (lines ! entry_line_number e) e w'"
      by blast
    from h out(4) se have "out ! entry_line_number e = rendered (lines ! entry_line_number e) e w"
      by metis
    with a h rendered_inject show "out' ! entry_line_number e \<noteq> out ! entry_line_number e"
      by metis
  qed
  have "save_ini \<lparr>sections = doc, widgets = ws, original_lines = raw\<rparr> = Inr out"
    "save_ini \<lparr>sections = doc, widgets = ?ws', original_lines = raw\<rparr> = Inr out'"
    using out(1) out'(1) by (simp_all add: save_ini_def)
  with out(2) out'(2,3) loc chg show ?thesis by blast
qed

text \<open>
  C8, as amended (line index out of range).  When every entry has a widget and some
  entry's line number is not below the number of raw lines, \<open>save_ini\<close> fails with
  Python's IndexError, raised by the read \<open>new_lines[entry.line_number]\<close>, before the
  file is opened: nothing is written.  There is no check of its own and no
  DocumentMismatch error.
\<close>

theorem out_of_range_line_raises_index_error:
  assumes "\<forall>s\<in>set (sections ed). \<forall>e\<in>set (entries s).
             widgets ed (section_name s, entry_name e) \<noteq> None"
    and "\<exists>s\<in>set (sections ed). \<exists>e\<in>set (entries s).
             length (original_lines ed) \<le> entry_line_number e"
  shows "save_ini ed = Inl IndexError"
  using assms unfolding save_ini_def by (rule save_sections_index_error)


text \<open>The claim as first stated fails: with spaces around \<open>=\<close> the text written back differs from the text read.\<close>

theorem round_trip_counterexample:
  "round_trip ''[A]\<newline>Foo = abc\<newline>'' = Inr ''[A]\<newline>Foo=abc\<newline>''
   \<and> round_trip ''[A]\<newline>Foo = abc\<newline>'' \<noteq> Inr ''[A]\<newline>Foo = abc\<newline>''"
  by code_simp

theorem unedited_save_rewrites_entry_lines_witness:
  "\<exists>ed out. load_ini commented_lines = Inr ed \<and> save_ini ed = Inr out \<and> length out = 3
      \<and> out ! 0 = ''; note\<newline>'' \<and> out ! 1 = ''[A]\<newline>''
      \<and> out ! 2 = ''  Foo=abc'' @ [TAB, TAB, TAB] @ ''; c\<newline>''"
proof -
  have "\<not> isl (load_ini commented_lines)" by code_simp
  then obtain ed where ed: "load_ini commented_lines = Inr ed"
    by (cases "load_ini commented_lines") auto
  have p: "parse_ini_with_comments commented_lines = Inr (commented_doc, commented_lines)"
    by code_simp
  with load_ini_Inr(1) [OF ed] have secs: "sections ed = commented_doc" by simp
  have "widgets (projr (load_ini commented_lines)) (''A'', ''Foo'') = Some (QLineEdit ''abc'')"
    by code_simp
  with ed have w: "widgets ed (''A'', ''Foo'') = Some (QLineEdit ''abc'')" by simp
  have el: "entry_lines commented_doc = [2]" by code_simp
  have len: "length commented_lines = 3" by code_simp
  have l0: "commented_lines ! 0 = ''; note\<newline>''" and l1: "commented_lines ! 1 = ''[A]\<newline>''"
    by code_simp+
  have sp: "list_all (\<lambda>c. c = CHR '' '') (takeWhile isspace (commented_lines ! 2))"
    by code_simp
  have r: "takeWhile isspace (commented_lines ! 2)
             @ new_line_of commented_entry (widget_value (QLineEdit ''abc'')) @ [NL]
             = ''  Foo=abc'' @ [TAB, TAB, TAB] @ ''; c\<newline>''"
    by code_simp
  from unedited_save_rewrites_entry_lines [OF ed] obtain out where
    out: "save_ini ed = Inr out" "length out = length commented_lines"
      "\<forall>i<length commented_lines. i \<notin> set (entry_lines (sections ed)) \<longrightarrow>
          out ! i = commented_lines ! i"
      "\<forall>s\<in>set (sections ed). \<forall>e\<in>set (entries s).
          \<exists>w. widgets ed (section_name s, entry_name e) = Some w
             \<and> lstrip (out ! entry_line_number e) = new_line_of e (widget_value w) @ [NL]
             \<and> (list_all (\<lambda>c. c = CHR '' '')
                    (takeWhile isspace (commented_lines ! entry_line_number e))
                  \<longrightarrow> out ! entry_line_number e
                        = takeWhile isspace (commented_lines ! entry_line_number e)
                            @ new_line_of e (widget_value w) @ [NL])"
    by blast
  from out(3) secs el len l0 l1 have "out ! 0 = ''; note\<newline>''" "out ! 1 = ''[A]\<newline>''"
    by simp_all
  moreover from out(4) secs w sp have "out ! 2 = takeWhile isspace (commented_lines ! 2)
             @ new_line_of commented_entry (widget_value (QLineEdit ''abc'')) @ [NL]"
    by (simp add: commented_doc_def commented_entry_def)
  ultimately show ?thesis using ed out(1,2) len r by auto
qed

text \<open>The claim as first stated fails: after one edit two lines differ from the input, the edited one and an unedited entry line that had spaces around \<open>=\<close>.\<close>

theorem single_edit_counterexample:
  "(case load_ini two_entry_lines of
      Inl e \<Rightarrow> Inl e
    | Inr ed \<Rightarrow> save_ini (edit_widget ed (''A'', ''Foo'') (QLineEdit ''q'')))
     = Inr [''[A]\<newline>'', ''Foo=q\<newline>'', ''Bar=xyz\<newline>'']
   \<and> changed_lines [''[A]\<newline>'', ''Foo=q\<newline>'', ''Bar=xyz\<newline>''] two_entry_lines = 2"
  by code_simp

theorem single_edit_locality_witness:
  "save_ini \<lparr>sections = two_entry_doc, widgets = two_entry_widgets,
             original_lines = two_entry_lines\<rparr>
     = Inr [''[A]\<newline>'', ''Foo=abc\<newline>'', ''Bar=xyz\<newline>'']
   \<and> (\<exists>out'. save_ini \<lparr>sections = two_entry_doc,
                      widgets = two_entry_widgets((''A'', ''Foo'') \<mapsto> QLineEdit ''q''),
                      original_lines = two_entry_lines\<rparr> = Inr out'
         \<and> length out' = 3 \<and> out' ! 0 = ''[A]\<newline>'' \<and> out' ! 1 \<noteq> ''Foo=abc\<newline>''
         \<and> out' ! 2 = ''Bar=xyz\<newline>'')"
proof -
  have p: "parse_ini_with_comments two_entry_lines = Inr (two_entry_doc, two_entry_lines)"
    by code_simp
  have b: "\<forall>s\<in>set two_entry_doc. \<forall>e\<in>set (entries s).
             two_entry_widgets (section_name s, entry_name e) \<noteq> None"
    by (simp add: two_entry_doc_def two_entry_widgets_def entry_Foo_def entry_Bar_def)
  have o: "save_ini \<lparr>sections = two_entry_doc, widgets = two_entry_widgets,
             original_lines = two_entry_lines\<rparr>
     = Inr [''[A]\<newline>'', ''Foo=abc\<newline>'', ''Bar=xyz\<newline>'']"
    by code_simp
  have len: "length two_entry_lines = 3" by code_simp
  have el: "entry_lines two_entry_doc = [1, 2]" by code_simp
  have l0: "two_entry_lines ! 0 = ''[A]\<newline>''" by code_simp
  have wv: "widget_value (QLineEdit ''q'') \<noteq> widget_value (QLineEdit ''abc'')"
    by (simp add: widget_value_def)
  from single_edit_locality [OF p b, of "(''A'', ''Foo'')" "QLineEdit ''q''"] o
  obtain out' where
    out': "save_ini \<lparr>sections = two_entry_doc,
                      widgets = two_entry_widgets((''A'', ''Foo'') \<mapsto> QLineEdit ''q''),
                      original_lines = two_entry_lines\<rparr> = Inr out'"
      "length out' = length two_entry_lines"
      "\<forall>i<length two_entry_lines.
          out' ! i \<noteq> [''[A]\<newline>'', ''Foo=abc\<newline>'', ''Bar=xyz\<newline>''] ! i \<longrightarrow>
            (\<exists>s\<in>set two_entry_doc. \<exists>e\<in>set (entries s).
                entry_line_number e = i \<and> (section_name s, entry_name e) = (''A'', ''Foo''))"
      "\<forall>i<length two_entry_lines. i \<notin> set (entry_lines two_entry_doc) \<longrightarrow>
          out' ! i = two_entry_lines ! i"
      "\<forall>s\<in>set two_entry_doc. \<forall>e\<in>set (entries s). \<forall>w.
          (section_name s, entry_name e) = (''A'', ''Foo'')
          \<and> two_entry_widgets (''A'', ''Foo'') = Some w
          \<and> widget_value (QLineEdit ''q'') \<noteq> widget_value w \<longrightarrow>
          out' ! entry_line_number e
            \<noteq> [''[A]\<newline>'', ''Foo=abc\<newline>'', ''Bar=xyz\<newline>''] ! entry_line_number e"
    by auto
  from out'(4) len el l0 have a0: "out' ! 0 = ''[A]\<newline>''" by simp
  from out'(3) len have
    "out' ! 2 \<noteq> [''[A]\<newline>'', ''Foo=abc\<newline>'', ''Bar=xyz\<newline>''] ! 2 \<longrightarrow>
       (\<exists>s\<in>set two_entry_doc. \<exists>e\<in>set (entries s).
           entry_line_number e = 2 \<and> (section_name s, entry_name e) = (''A'', ''Foo''))"
    by simp
  then have a2: "out' ! 2 = ''Bar=xyz\<newline>''"
    by (auto simp: two_entry_doc_def entry_Foo_def entry_Bar_def)
  from out'(5) wv have a1: "out' ! 1 \<noteq> ''Foo=abc\<newline>''"
    by (simp add: two_entry_doc_def entry_Foo_def entry_Bar_def two_entry_widgets_def)
  from o out'(1,2) len a0 a1 a2 show ?thesis by simp
qed

text \<open>The claim as first stated fails: the error raised at an out-of-range line number is IndexError.\<close>

theorem index_error_counterexample:
  "save_ini mismatched_editor = Inl IndexError
   \<and> save_ini mismatched_editor \<noteq> Inl DocumentMismatch"
  by code_simp

theorem out_of_range_line_raises_index_error_witness:
  "length (original_lines short_editor) = 2
   \<and> map entry_line_number (entries (hd (sections short_editor))) = [1, 2]
   \<and> save_ini short_editor = Inl IndexError"
proof -
  have a: "\<forall>s\<in>set (sections short_editor). \<forall>e\<in>set (entries s).
             widgets short_editor (section_name s, entry_name e) \<noteq> None"
    by (simp add: short_editor_def two_entry_doc_def two_entry_widgets_def entry_Foo_def
        entry_Bar_def)
  have b: "\<exists>s\<in>set (sections short_editor). \<exists>e\<in>set (entries s).
             length (original_lines short_editor) \<le> entry_line_number e"
    by (simp add: short_editor_def two_entry_doc_def entry_Foo_def entry_Bar_def)
  have "length (original_lines short_editor) = 2" by code_simp
  moreover have "map entry_line_number (entries (hd (sections short_editor))) = [1, 2]"
    by code_simp
  ultimately show ?thesis
    using out_of_range_line_raises_index_error [OF a b] by simp
qed

text \<open>
  C3 (indentation preservation), at a tab-indented entry line: the original line begins
  with one tab, and the line written after the value is edited begins with one space.
\<close>

theorem tab_indentation_becomes_spaces:
  "(case load_ini [''[A]\<newline>'', [TAB] @ ''Foo=1\<newline>''] of
      Inl e \<Rightarrow> Inl e
    | Inr ed \<Rightarrow> save_ini (edit_widget ed (''A'', ''Foo'') (QSpinBox 42)))
     = Inr [''[A]\<newline>'', '' Foo=42\<newline>'']
   \<and> takeWhile isspace ([TAB] @ ''Foo=1\<newline>'') = [TAB]
   \<and> takeWhile isspace '' Foo=42\<newline>'' = '' ''"
  by code_simp

end
